theory Spec2Isabelle
  imports
    Main
    "HOL-Library.Multiset"
    "HOL-Library.Sublist"
    "HOL-Library.Char_ord"
    "HOL-Library.List_Lexorder"
begin

section \<open>Text\<close>

text \<open>
  A Python \<open>str\<close> is a sequence of code points. The parser tells white space and decimal
  digits from other characters, so it works on the code points themselves, as numbers
  (\<open>ustr\<close>). The engine only compares, joins and searches the strings of an event;
  there a \<open>str\<close> stands as the \<^typ>\<open>string\<close> of its UTF-8 bytes, which keeps equality,
  order, concatenation and containment (the arrow that the engine writes into \<open>details\<close>
  is the three bytes E2 86 92).
\<close>

type_synonym ustr = "int list"

text \<open>An ASCII literal of the source, as code points.\<close>

definition u :: "string \<Rightarrow> ustr" where
  "u s = map of_char s"

text \<open>The UTF-8 bytes of a code point and of a \<open>str\<close>.\<close>

definition utf8_char :: "int \<Rightarrow> string" where
  "utf8_char c =
     (if c < 128 then [char_of c]
      else if c < 2048 then [char_of (192 + c div 64), char_of (128 + c mod 64)]
      else if c < 65536 then
        [char_of (224 + c div 4096), char_of (128 + c div 64 mod 64), char_of (128 + c mod 64)]
      else
        [char_of (240 + c div 262144), char_of (128 + c div 4096 mod 64),
         char_of (128 + c div 64 mod 64), char_of (128 + c mod 64)])"

definition utf8 :: "ustr \<Rightarrow> string" where
  "utf8 s = concat (map utf8_char s)"

text \<open>\<open>s.startswith(p)\<close>\<close>

fun startswith :: "'a list \<Rightarrow> 'a list \<Rightarrow> bool" where
  "startswith s [] = True"
| "startswith [] (p # ps) = False"
| "startswith (c # cs) (p # ps) = (c = p \<and> startswith cs ps)"

text \<open>\<open>s.endswith(p)\<close>\<close>

definition endswith :: "string \<Rightarrow> string \<Rightarrow> bool" where
  "endswith s p = startswith (rev s) (rev p)"

text \<open>\<open>sub in s\<close>: \<open>sub\<close> occurs in \<open>s\<close> as a contiguous substring.\<close>

fun str_in :: "string \<Rightarrow> string \<Rightarrow> bool" where
  "str_in sub [] = (sub = [])"
| "str_in sub (c # cs) = (startswith (c # cs) sub \<or> str_in sub cs)"

text \<open>\<open>any(p in s for p in ps)\<close>\<close>

definition any_in :: "string list \<Rightarrow> string \<Rightarrow> bool" where
  "any_in ps s = list_ex (\<lambda>p. str_in p s) ps"

text \<open>
  The characters \<open>str.strip()\<close> removes, the white space of Unicode: tab to carriage
  return, the separators 1C to 1F, space, U+0085, U+00A0, U+1680, U+2000 to U+200A,
  U+2028, U+2029, U+202F, U+205F and U+3000.
\<close>

definition isspace :: "int \<Rightarrow> bool" where
  "isspace c =
     ((9 \<le> c \<and> c \<le> 13) \<or> (28 \<le> c \<and> c \<le> 32) \<or> c = 133 \<or> c = 160 \<or> c = 5760 \<or>
      (8192 \<le> c \<and> c \<le> 8202) \<or> c = 8232 \<or> c = 8233 \<or> c = 8239 \<or> c = 8287 \<or> c = 12288)"

definition strip :: "ustr \<Rightarrow> ustr" where
  "strip s = rev (dropWhile isspace (rev (dropWhile isspace s)))"

text \<open>
  The decimal digits of Unicode (version 14, as in CPython 3.11): they come in runs of
  ten, from the digit zero of a script to its digit nine. \<open>decimal_zeros\<close> lists the
  zeros; \<open>decimal c\<close> is the value of the digit \<open>c\<close>.
\<close>

definition decimal_zeros :: "int list" where
  "decimal_zeros =
     [48, 1632, 1776, 1984, 2406, 2534, 2662, 2790, 2918, 3046, 3174, 3302, 3430, 3558,
      3664, 3792, 3872, 4160, 4240, 6112, 6160, 6470, 6608, 6784, 6800, 6992, 7088, 7232,
      7248, 42528, 43216, 43264, 43472, 43504, 43600, 44016, 65296, 66720, 68912, 69734,
      69872, 69942, 70096, 70384, 70736, 70864, 71248, 71360, 71472, 71904, 72016, 72784,
      73040, 73120, 92768, 92864, 93008, 120782, 120792, 120802, 120812, 120822, 123200,
      123632, 125264, 130032]"

definition decimal :: "int \<Rightarrow> int option" where
  "decimal c = map_option (\<lambda>z. c - z) (find (\<lambda>z. z \<le> c \<and> c < z + 10) decimal_zeros)"

section \<open>The line pattern\<close>

text \<open>
  The pattern of \<open>parse_logs_from_directory\<close> uses literals, character classes under a
  greedy \<open>+\<close> or \<open>*\<close>, and named groups that do not nest. It is written here as the list of
  its pieces, left to right, each with the name of the group it stands in (if any).
\<close>

datatype cls =
    HexDigit          \<comment> \<open>\<open>[0-9a-fA-F]\<close>\<close>
  | Digit             \<comment> \<open>\<open>\d\<close>: any decimal digit of Unicode\<close>
  | NotChar char      \<comment> \<open>\<open>[^c]\<close>\<close>
  | IsChar char       \<comment> \<open>\<open>c\<close>\<close>
  | Dot               \<comment> \<open>\<open>.\<close>: any character but a line feed\<close>

definition in_range :: "char \<Rightarrow> char \<Rightarrow> int \<Rightarrow> bool" where
  "in_range lo hi c = (of_char lo \<le> c \<and> c \<le> of_char hi)"

fun cls_ok :: "cls \<Rightarrow> int \<Rightarrow> bool" where
  "cls_ok HexDigit c =
     (in_range CHR ''0'' CHR ''9'' c \<or> in_range CHR ''a'' CHR ''f'' c \<or> in_range CHR ''A'' CHR ''F'' c)"
| "cls_ok Digit c = (decimal c \<noteq> None)"
| "cls_ok (NotChar x) c = (c \<noteq> of_char x)"
| "cls_ok (IsChar x) c = (c = of_char x)"
| "cls_ok Dot c = (c \<noteq> 10)"

datatype piece =
    Lit string        \<comment> \<open>the text itself\<close>
  | Rep cls nat       \<comment> \<open>a class repeated greedily, at least so many times\<close>

type_synonym pattern = "(string option \<times> piece) list"
type_synonym captures = "(string option \<times> ustr) list"

text \<open>The first alternative that succeeds, in the order tried.\<close>

primrec first_some :: "('a \<Rightarrow> 'b option) \<Rightarrow> 'a list \<Rightarrow> 'b option" where
  "first_some f [] = None"
| "first_some f (x # xs) = (case f x of Some y \<Rightarrow> Some y | None \<Rightarrow> first_some f xs)"

text \<open>
  \<open>pattern.match(s)\<close>: the match is anchored at the start of \<open>s\<close> and not at its end. A
  repetition takes as many characters as its class allows and gives them back one at a
  time, down to its minimum, until the rest of the pattern matches. The result lists the
  text each piece matched.
\<close>

primrec rx_match :: "pattern \<Rightarrow> ustr \<Rightarrow> captures option" where
  "rx_match [] s = Some []"
| "rx_match (p # ps) s =
     (case snd p of
        Lit l \<Rightarrow>
          if startswith s (u l)
          then map_option ((#) (fst p, u l)) (rx_match ps (drop (length l) s))
          else None
      | Rep c m \<Rightarrow>
          first_some
            (\<lambda>k. map_option ((#) (fst p, take k s)) (rx_match ps (drop k s)))
            (rev [m ..< Suc (length (takeWhile (cls_ok c) s))]))"

text \<open>\<open>match.groupdict()[name]\<close>: the text matched inside the group.\<close>

definition group :: "string \<Rightarrow> captures \<Rightarrow> ustr" where
  "group name caps = concat (map snd (filter (\<lambda>p. fst p = Some name) caps))"

text \<open>What a piece leaves in the result: its group name and a text the piece allows.\<close>

definition piece_ok :: "string option \<times> piece \<Rightarrow> string option \<times> ustr \<Rightarrow> bool" where
  "piece_ok p cp =
     (fst cp = fst p \<and> (case snd p of Lit l \<Rightarrow> snd cp = u l | Rep c m \<Rightarrow> m \<le> length (snd cp)))"

definition log_pattern :: pattern where
  "log_pattern =
     [(Some ''log_id'', Lit ''0x''), (Some ''log_id'', Rep HexDigit 1),
      (None, Lit ''[ts:''), (Some ''timestamp'', Rep Digit 1),
      (None, Lit '']|EVNT:''), (Some ''event_type'', Rep (NotChar CHR ''!'') 1),
      (None, Lit ''!@''), (Some ''action'', Rep (NotChar CHR ''_'') 1),
      (None, Lit ''_''), (Some ''actor_type'', Rep (NotChar CHR '':'') 1),
      (None, Lit '':''), (Some ''actor'', Rep (NotChar CHR ''='') 1),
      (None, Rep (IsChar CHR ''='') 0), (None, Lit ''>''),
      (Some ''target'', Rep Dot 1)]"

text \<open>The pattern up to and including the arrow: all of it but the target group.\<close>

definition arrow_pattern :: pattern where
  "arrow_pattern = butlast log_pattern"

section \<open>Events and the parser\<close>

datatype error =
    KeyError string
  | ValueError
  | OverflowError
  | OSError
  | OutOfBoundsDatetime

text \<open>
  One parsed line: the seven groups of the pattern, \<open>file\<close> and \<open>datetime\<close>. A datetime
  is kept as the number of seconds from 1970-01-01 00:00:00 on its own (naive) clock.
\<close>

record event =
  log_id :: string
  timestamp :: int
  event_type :: string
  action :: string
  actor_type :: string
  actor :: string
  target :: string
  source_file :: string    \<comment> \<open>the column \<open>file\<close>\<close>
  datetime :: int

text \<open>
  \<open>int(s)\<close> on the text of the timestamp group, one or more decimal digits: each digit
  counts with its decimal value, and more than 4300 digits raise ValueError. (Text with
  any other character is not passed to it; here it raises ValueError.)
\<close>

definition int_of_digits :: "int list \<Rightarrow> int" where
  "int_of_digits ds = foldl (\<lambda>a d. 10 * a + d) 0 ds"

definition py_int :: "ustr \<Rightarrow> error + int" where
  "py_int s =
     (if 4300 < length s then Inl ValueError
      else (case those (map decimal s) of
              None \<Rightarrow> Inl ValueError
            | Some [] \<Rightarrow> Inl ValueError
            | Some (d # ds) \<Rightarrow> Inr (int_of_digits (d # ds))))"

text \<open>
  \<open>datetime.fromtimestamp\<close> of CPython 3.11 on a 64-bit Linux host whose local clock is
  UTC: the seconds themselves from 0001-01-02 to the end of the year 9999, ValueError
  where the year is out of range, OSError where the C library cannot break the time
  down, and OverflowError beyond 64 bits.
\<close>

definition fromtimestamp_utc :: "int \<Rightarrow> error + int" where
  "fromtimestamp_utc t =
     (if t < - 9223372036854775808 \<or> 9223372036854775808 \<le> t then Inl OverflowError
      else if t < - 67768040609740800 \<or> 67768036191676800 \<le> t then Inl OSError
      else if t < - 62135510400 \<or> 253402300800 \<le> t then Inl ValueError
      else Inr t)"

text \<open>
  The body of the loop over the lines of one file. The parameter \<open>fromtimestamp\<close> is
  \<open>datetime.fromtimestamp\<close> of the host: it depends on the local time zone, and what it
  raises is raised by the parser. A line that does not match is skipped. The line is
  text already decoded; the fields of the event are its groups, in UTF-8.
\<close>

definition parse_line ::
  "(int \<Rightarrow> error + int) \<Rightarrow> string \<Rightarrow> ustr \<Rightarrow> error + event option" where
  "parse_line fromtimestamp fname line =
     (case rx_match log_pattern (strip line) of
        None \<Rightarrow> Inr None
      | Some data \<Rightarrow>
          (case py_int (group ''timestamp'' data) of
             Inl e \<Rightarrow> Inl e
           | Inr ts \<Rightarrow>
               (case fromtimestamp ts of
                  Inl e \<Rightarrow> Inl e
                | Inr dt \<Rightarrow>
                    Inr (Some \<lparr>log_id = utf8 (group ''log_id'' data), timestamp = ts,
                      event_type = utf8 (group ''event_type'' data),
                      action = utf8 (group ''action'' data),
                      actor_type = utf8 (group ''actor_type'' data),
                      actor = utf8 (group ''actor'' data),
                      target = utf8 (group ''target'' data),
                      source_file = fname, datetime = dt\<rparr>))))"

fun parse_lines ::
  "(int \<Rightarrow> error + int) \<Rightarrow> string \<Rightarrow> ustr list \<Rightarrow> event list \<Rightarrow> error + event list" where
  "parse_lines fromtimestamp fname [] entries = Inr entries"
| "parse_lines fromtimestamp fname (line # rest) entries =
     (case parse_line fromtimestamp fname line of
        Inl e \<Rightarrow> Inl e
      | Inr None \<Rightarrow> parse_lines fromtimestamp fname rest entries
      | Inr (Some data) \<Rightarrow> parse_lines fromtimestamp fname rest (entries @ [data]))"

text \<open>
  A frame of events. \<open>pd.DataFrame(entries)\<close> takes its columns from the dicts it is
  given, so an empty list gives a frame with no columns at all.
\<close>

datatype frame =
    NoColumns
  | Frame "event list"

fun DataFrame :: "event list \<Rightarrow> frame" where
  "DataFrame [] = NoColumns"
| "DataFrame (e # es) = Frame (e # es)"

text \<open>
  The directory is the list of its files in the order \<open>os.listdir\<close> gives them, each with
  its name and its lines.
\<close>

fun parse_files ::
  "(int \<Rightarrow> error + int) \<Rightarrow> (string \<times> ustr list) list \<Rightarrow> event list \<Rightarrow> error + event list" where
  "parse_files fromtimestamp [] entries = Inr entries"
| "parse_files fromtimestamp ((fname, ls) # rest) entries =
     (if endswith fname ''.vlog''
      then (case parse_lines fromtimestamp fname ls entries of
              Inl e \<Rightarrow> Inl e
            | Inr entries' \<Rightarrow> parse_files fromtimestamp rest entries')
      else parse_files fromtimestamp rest entries)"

definition parse_logs_from_directory ::
  "(int \<Rightarrow> error + int) \<Rightarrow> (string \<times> ustr list) list \<Rightarrow> error + frame" where
  "parse_logs_from_directory fromtimestamp logdir =
     (case parse_files fromtimestamp logdir [] of
        Inl e \<Rightarrow> Inl e
      | Inr entries \<Rightarrow> Inr (DataFrame entries))"

section \<open>Anomalies\<close>

text \<open>One row of the anomaly table: the eight keys of the dicts the engine appends.\<close>

record anomaly =
  a_timestamp :: string    \<comment> \<open>the key \<open>timestamp\<close>\<close>
  user :: string
  reason :: string
  details :: string
  ip_address :: string
  action_type :: string
  severity :: string
  log_source :: string

subsection \<open>Rendering a datetime\<close>

text \<open>
  \<open>strftime("%Y-%m-%d %H:%M:%S")\<close> on a datetime given in seconds: the day number is
  turned into a date of the proleptic Gregorian calendar.
\<close>

fun dec :: "nat \<Rightarrow> string" where
  "dec n = (if n < 10 then [char_of (48 + n)] else dec (n div 10) @ [char_of (48 + n mod 10)])"

definition zpad :: "nat \<Rightarrow> int \<Rightarrow> string" where
  "zpad w n = (let d = dec (nat n) in replicate (w - length d) CHR ''0'' @ d)"

definition civil_from_days :: "int \<Rightarrow> int \<times> int \<times> int" where
  "civil_from_days z =
     (let z' = z + 719468;
          era = z' div 146097;
          doe = z' mod 146097;
          yoe = (doe - doe div 1460 + doe div 36524 - doe div 146096) div 365;
          doy = doe - (365 * yoe + yoe div 4 - yoe div 100);
          mp = (5 * doy + 2) div 153;
          d = doy - (153 * mp + 2) div 5 + 1;
          m = (if mp < 10 then mp + 3 else mp - 9);
          y = yoe + era * 400 + (if m \<le> 2 then 1 else 0)
      in (y, m, d))"

definition strftime :: "int \<Rightarrow> string" where
  "strftime t =
     (let (y, m, d) = civil_from_days (t div 86400);
          s = t mod 86400
      in zpad 4 y @ ''-'' @ zpad 2 m @ ''-'' @ zpad 2 d @ '' '' @
         zpad 2 (s div 3600) @ '':'' @ zpad 2 (s mod 3600 div 60) @ '':'' @ zpad 2 (s mod 60))"

subsection \<open>The catalog\<close>

definition suspicious_binaries :: "string list" where
  "suspicious_binaries = [''/bin/xz'', ''/bin/nc'', ''/usr/bin/python3'', ''/usr/bin/perl'']"

definition suspicious_extensions :: "string list" where
  "suspicious_extensions = [''.exe'', ''.bin'', ''.out'', ''.so'']"

definition sensitive_paths :: "string list" where
  "sensitive_paths = [''/bin/'', ''/tmp/'', ''/sbin/'', ''/usr/local/bin/'']"

section \<open>The correlation engine\<close>

subsection \<open>Sorting a frame\<close>

text \<open>
  \<open>sort_values(by='datetime')\<close> asks the array library for the indices that sort the
  column and takes the rows in that order. It is called with the default kind of sort,
  quicksort, which the library documents as not stable; so the index sort is a parameter
  \<open>argsort\<close> of the model, and \<open>argsort_ok\<close> is all that is known of it: the result is a
  permutation of the positions and reads the keys in ascending order.
\<close>

definition argsort_ok :: "(int list \<Rightarrow> nat list) \<Rightarrow> bool" where
  "argsort_ok argsort =
     (\<forall>ks. mset (argsort ks) = mset [0 ..< length ks] \<and> sorted (map ((!) ks) (argsort ks)))"

definition sort_values :: "(int list \<Rightarrow> nat list) \<Rightarrow> event list \<Rightarrow> event list" where
  "sort_values argsort rows = map ((!) rows) (argsort (map datetime rows))"

text \<open>
  The index sort that keeps ties in order, as \<open>kind='stable'\<close> would; it meets
  \<open>argsort_ok\<close>. On keys that are all different every index sort gives what it gives.
\<close>

definition argsort_stable :: "int list \<Rightarrow> nat list" where
  "argsort_stable ks = sort_key ((!) ks) [0 ..< length ks]"

subsection \<open>Converting the timestamps\<close>

text \<open>
  \<open>pd.to_datetime(df['timestamp'], unit='s')\<close> gives datetimes counted in nanoseconds in
  64 bits, and raises OutOfBoundsDatetime when a timestamp does not fit. The result is on
  the UTC clock: its seconds are the timestamp itself.
\<close>

definition in_bounds :: "int \<Rightarrow> bool" where
  "in_bounds ts = (- 9223372036 \<le> ts \<and> ts \<le> 9223372036)"

definition to_datetime :: "event list \<Rightarrow> error + event list" where
  "to_datetime rows =
     (if list_all (\<lambda>e. in_bounds (timestamp e)) rows
      then Inr (map (\<lambda>e. e\<lparr>datetime := timestamp e\<rparr>) rows)
      else Inl OutOfBoundsDatetime)"

subsection \<open>The rules\<close>

definition log_text :: "event \<Rightarrow> string" where
  "log_text row =
     event_type row @ ''!@'' @ action row @ ''_'' @ actor_type row @ '':'' @ actor row @
     ''=>'' @ target row"

text \<open>The separator of \<open>details\<close>: a space, the arrow U+2192 in UTF-8, a space.\<close>

definition arrow_sep :: string where
  "arrow_sep = [CHR '' '', CHR 0xE2, CHR 0x86, CHR 0x92, CHR '' '']"

definition shadow_delete :: "string \<Rightarrow> event \<Rightarrow> event \<Rightarrow> anomaly" where
  "shadow_delete usr row later =
     \<lparr>a_timestamp = strftime (datetime later), user = usr,
      reason = ''Shadow load followed by process delete'',
      details = log_text row @ arrow_sep @ target later,
      ip_address = ''N/A'', action_type = ''Delete'', severity = ''High'',
      log_source = source_file later\<rparr>"

definition create_delete :: "string \<Rightarrow> event \<Rightarrow> event \<Rightarrow> anomaly" where
  "create_delete usr row later =
     \<lparr>a_timestamp = strftime (datetime later), user = usr,
      reason = ''Created then deleted same file'',
      details = log_text row @ arrow_sep @ target later,
      ip_address = ''N/A'', action_type = ''Delete'', severity = ''Medium'',
      log_source = source_file later\<rparr>"

definition suspicious_run :: "string \<Rightarrow> event \<Rightarrow> anomaly" where
  "suspicious_run usr row =
     \<lparr>a_timestamp = strftime (datetime row), user = usr,
      reason = ''Suspicious binary executed'',
      details = log_text row,
      ip_address = ''N/A'', action_type = ''Execute'', severity = ''High'',
      log_source = source_file row\<rparr>"

definition suspicious_delete :: "string \<Rightarrow> event \<Rightarrow> anomaly" where
  "suspicious_delete usr row =
     \<lparr>a_timestamp = strftime (datetime row), user = usr,
      reason = ''Deleted binary/suspicious executable file'',
      details = log_text row,
      ip_address = ''N/A'', action_type = ''Delete'', severity = ''High'',
      log_source = source_file row\<rparr>"

text \<open>\<open>range(i+1, min(i+6, len(logs)))\<close>\<close>

definition window :: "event list \<Rightarrow> nat \<Rightarrow> nat list" where
  "window logs i = [i + 1 ..< min (i + 6) (length logs)]"

text \<open>Rule 1: shadow load followed by delete, at most 600 seconds later.\<close>

definition rule1 :: "string \<Rightarrow> event list \<Rightarrow> nat \<Rightarrow> anomaly list" where
  "rule1 usr logs i =
     (if str_in ''SHD'' (action (logs ! i))
      then concat (map (\<lambda>j.
             if str_in ''DEL'' (action (logs ! j))
             then (if datetime (logs ! j) - datetime (logs ! i) \<le> 600
                   then [shadow_delete usr (logs ! i) (logs ! j)] else [])
             else [])
           (window logs i))
      else [])"

text \<open>Rule 2: create followed by delete of the same file.\<close>

definition rule2 :: "string \<Rightarrow> event list \<Rightarrow> nat \<Rightarrow> anomaly list" where
  "rule2 usr logs i =
     (if str_in ''CRE'' (action (logs ! i))
      then concat (map (\<lambda>j.
             if str_in ''DEL'' (action (logs ! j)) \<and> str_in (target (logs ! i)) (target (logs ! j))
             then [create_delete usr (logs ! i) (logs ! j)]
             else [])
           (window logs i))
      else [])"

text \<open>Rule 3: suspicious binary executed.\<close>

definition rule3 :: "string \<Rightarrow> event list \<Rightarrow> nat \<Rightarrow> anomaly list" where
  "rule3 usr logs i =
     (if str_in ''RUN'' (action (logs ! i))
      then (if any_in suspicious_binaries (target (logs ! i))
            then [suspicious_run usr (logs ! i)] else [])
      else [])"

text \<open>Rule 4: deleted a suspicious binary.\<close>

definition rule4 :: "string \<Rightarrow> event list \<Rightarrow> nat \<Rightarrow> anomaly list" where
  "rule4 usr logs i =
     (if str_in ''DEL'' (action (logs ! i))
      then (if list_ex (endswith (target (logs ! i))) suspicious_extensions
               \<or> any_in sensitive_paths (target (logs ! i))
            then [suspicious_delete usr (logs ! i)] else [])
      else [])"

text \<open>The body of the loop over the rows of one actor, and the loop.\<close>

definition row_step :: "string \<Rightarrow> event list \<Rightarrow> nat \<Rightarrow> anomaly list" where
  "row_step usr logs i = rule1 usr logs i @ rule2 usr logs i @ rule3 usr logs i @ rule4 usr logs i"

definition actor_anomalies :: "string \<Rightarrow> event list \<Rightarrow> anomaly list" where
  "actor_anomalies usr logs = concat (map (row_step usr logs) [0 ..< length logs])"

subsection \<open>Grouping and the whole pass\<close>

text \<open>
  \<open>df.groupby('actor')\<close>: the keys come in ascending order, and each group holds the rows
  of its actor in the order of the frame.
\<close>

definition group_keys :: "event list \<Rightarrow> string list" where
  "group_keys rows = sort (remdups (map actor rows))"

definition get_group :: "event list \<Rightarrow> string \<Rightarrow> event list" where
  "get_group rows usr = filter (\<lambda>e. actor e = usr) rows"

text \<open>The view of one actor that the rules run over: the group, sorted again.\<close>

definition actor_view :: "(int list \<Rightarrow> nat list) \<Rightarrow> event list \<Rightarrow> string \<Rightarrow> event list" where
  "actor_view argsort rows usr = sort_values argsort (get_group rows usr)"

text \<open>
  What a call leaves behind: the frame it was given, which it changes in place, the
  anomalies it returns, and whether it wrote \<open>anomalies.html\<close>.
\<close>

record outcome =
  df_after :: frame
  anomalies :: "anomaly list"
  html_written :: bool

definition custom_anomaly_detection ::
  "(int list \<Rightarrow> nat list) \<Rightarrow> frame \<Rightarrow> error + outcome" where
  "custom_anomaly_detection argsort df =
     (case df of
        NoColumns \<Rightarrow> Inl (KeyError ''timestamp'')
      | Frame rows \<Rightarrow>
          (case to_datetime rows of
             Inl e \<Rightarrow> Inl e
           | Inr rows1 \<Rightarrow>
               (let rows2 = sort_values argsort rows1;
                    found = concat (map (\<lambda>usr. actor_anomalies usr (actor_view argsort rows2 usr))
                                     (group_keys rows2))
                in Inr \<lparr>df_after = Frame rows2, anomalies = found,
                         html_written = (found \<noteq> [])\<rparr>)))"

subsection \<open>Sample events\<close>

text \<open>
  The event that the parser, on a host whose clock is UTC, makes of the line
  \<open>0x1[ts:<ts>]|EVNT:EV!@<act>_usr:<who>=><tgt>\<close> of the file \<open>a.vlog\<close>.
\<close>

definition mk_event :: "int \<Rightarrow> string \<Rightarrow> string \<Rightarrow> string \<Rightarrow> event" where
  "mk_event ts act who tgt =
     \<lparr>log_id = ''0x1'', timestamp = ts, event_type = ''EV'', action = act, actor_type = ''usr'',
      actor = who, target = tgt, source_file = ''a.vlog'', datetime = ts\<rparr>"

text \<open>A shadow load and a delete by the same actor, \<open>d\<close> seconds apart.\<close>

definition shadow_then_delete :: "int \<Rightarrow> event list" where
  "shadow_then_delete d =
     [mk_event 1000 ''SHD'' ''alice'' ''libx'', mk_event (1000 + d) ''DEL'' ''alice'' ''proc'']"

text \<open>
  A row that both loads and creates, then \<open>k\<close> other rows, then a delete of the created
  file: the delete stands at index \<open>k + 1\<close>.
\<close>

definition late_delete :: "nat \<Rightarrow> event list" where
  "late_delete k =
     mk_event 0 ''SHD-CRE'' ''alice'' ''/x'' # replicate k (mk_event 1 ''RD'' ''alice'' ''/y'') @
     [mk_event 2 ''DEL'' ''alice'' ''/x'']"

text \<open>
  Two actors whose events interleave in time, and what the engine makes of them.
\<close>

definition interleaved_outcome :: outcome where
  "interleaved_outcome =
     \<lparr>df_after =
        Frame [mk_event 10 ''SHD'' ''alice'' ''libx'', mk_event 20 ''DEL'' ''bob'' ''/tmp/t'',
               mk_event 30 ''DEL'' ''alice'' ''/tmp/s''],
      anomalies =
        [shadow_delete ''alice'' (mk_event 10 ''SHD'' ''alice'' ''libx'')
           (mk_event 30 ''DEL'' ''alice'' ''/tmp/s''),
         suspicious_delete ''alice'' (mk_event 30 ''DEL'' ''alice'' ''/tmp/s''),
         suspicious_delete ''bob'' (mk_event 20 ''DEL'' ''bob'' ''/tmp/t'')],
      html_written = True\<rparr>"

definition interleaved :: "event list" where
  "interleaved =
     [mk_event 10 ''SHD'' ''alice'' ''libx'', mk_event 20 ''DEL'' ''bob'' ''/tmp/t'',
      mk_event 30 ''DEL'' ''alice'' ''/tmp/s'']"

section \<open>Properties of the text functions\<close>

lemma startswith_prefix: "startswith s p \<longleftrightarrow> prefix p s"
  by (induction s p rule: startswith.induct) auto

lemma endswith_suffix: "endswith s p \<longleftrightarrow> suffix p s"
  by (simp add: endswith_def startswith_prefix suffix_to_prefix)

lemma str_in_sublist: "str_in sub s \<longleftrightarrow> sublist sub s"
  by (induction s) (auto simp: startswith_prefix sublist_Cons_right)

lemma any_in_iff: "any_in ps s \<longleftrightarrow> (\<exists>p \<in> set ps. sublist p s)"
  by (simp add: any_in_def list_ex_iff str_in_sublist)

section \<open>The parser\<close>

lemma first_some_SomeD: "first_some f xs = Some y \<Longrightarrow> \<exists>x \<in> set xs. f x = Some y"
  by (induction xs) (auto split: option.splits)

text \<open>A match gives one text per piece, and a repetition never less than its minimum.\<close>

lemma rx_match_pieces: "rx_match ps s = Some caps \<Longrightarrow> list_all2 piece_ok ps caps"
proof (induction ps arbitrary: s caps)
  case Nil
  then show ?case by simp
next
  case (Cons p ps)
  show ?case
  proof (cases "snd p")
    case (Lit l)
    with Cons.prems obtain caps' where
      c: "caps = (fst p, u l) # caps'" "rx_match ps (drop (length l) s) = Some caps'"
      by (auto split: if_splits)
    from Cons.IH [OF c(2)] c(1) Lit show ?thesis
      by (simp add: piece_ok_def)
  next
    case (Rep c m)
    with Cons.prems have
      "first_some (\<lambda>k. map_option ((#) (fst p, take k s)) (rx_match ps (drop k s)))
         (rev [m ..< Suc (length (takeWhile (cls_ok c) s))]) = Some caps"
      by simp
    from first_some_SomeD [OF this] obtain k caps' where
      k: "m \<le> k" "k \<le> length (takeWhile (cls_ok c) s)" and
      c: "caps = (fst p, take k s) # caps'" "rx_match ps (drop k s) = Some caps'"
      by auto
    have "length (takeWhile (cls_ok c) s) \<le> length s"
      by (rule length_takeWhile_le)
    with k have "m \<le> length (take k s)"
      by simp
    with Cons.IH [OF c(2)] c(1) Rep show ?thesis
      by (simp add: piece_ok_def)
  qed
qed

text \<open>The texts of the pieces, joined, are the start of the line.\<close>

lemma rx_match_concat: "rx_match ps s = Some caps \<Longrightarrow> prefix (concat (map snd caps)) s"
proof (induction ps arbitrary: s caps)
  case Nil
  then show ?case by simp
next
  case (Cons p ps)
  show ?case
  proof (cases "snd p")
    case (Lit l)
    with Cons.prems obtain caps' where
      c: "caps = (fst p, u l) # caps'" "rx_match ps (drop (length l) s) = Some caps'"
      and l: "startswith s (u l)"
      by (auto split: if_splits)
    from l obtain r where r: "s = u l @ r"
      by (auto simp: startswith_prefix prefix_def)
    then have "drop (length l) s = r"
      by (simp add: u_def)
    with Cons.IH [OF c(2)] c(1) r show ?thesis
      by simp
  next
    case (Rep c m)
    with Cons.prems have
      "first_some (\<lambda>k. map_option ((#) (fst p, take k s)) (rx_match ps (drop k s)))
         (rev [m ..< Suc (length (takeWhile (cls_ok c) s))]) = Some caps"
      by simp
    from first_some_SomeD [OF this] obtain k caps' where
      c: "caps = (fst p, take k s) # caps'" "rx_match ps (drop k s) = Some caps'"
      by auto
    from Cons.IH [OF c(2)] obtain r where "drop k s = concat (map snd caps') @ r"
      by (auto simp: prefix_def)
    then have "s = take k s @ concat (map snd caps') @ r"
      by (metis append_take_drop_id)
    with c(1) show ?thesis
      by (auto simp: prefix_def)
  qed
qed

lemma utf8_char_nonempty: "utf8_char c \<noteq> []"
  by (simp add: utf8_char_def)

lemma utf8_Nil_iff: "utf8 s = [] \<longleftrightarrow> s = []"
  by (cases s) (simp_all add: utf8_def utf8_char_nonempty)

lemma log_pattern_groups:
  assumes "rx_match log_pattern s = Some data"
  shows "group ''log_id'' data \<noteq> [] \<and> group ''timestamp'' data \<noteq> [] \<and>
         group ''event_type'' data \<noteq> [] \<and> group ''action'' data \<noteq> [] \<and>
         group ''actor_type'' data \<noteq> [] \<and> group ''actor'' data \<noteq> [] \<and>
         group ''target'' data \<noteq> []"
  using rx_match_pieces [OF assms]
  by (auto simp: log_pattern_def list_all2_Cons1 piece_ok_def group_def u_def)

text \<open>A line that matches has a \<open>>\<close> that is not its last character.\<close>

lemma log_pattern_arrow:
  assumes "rx_match log_pattern s = Some data"
  shows "of_char CHR ''>'' \<in> set (butlast s)"
proof -
  have "list_all2 piece_ok
      (butlast (butlast log_pattern) @ [(None, Lit ''>''), (Some ''target'', Rep Dot 1)]) data"
    using rx_match_pieces [OF assms] by (simp add: log_pattern_def)
  then obtain us c t where
    d: "data = us @ [(None, c), (Some ''target'', t)]" and c: "c = u ''>''" and t: "1 \<le> length t"
    by (auto simp: list_all2_append1 list_all2_Cons1 piece_ok_def)
  from rx_match_concat [OF assms] d c obtain r where
    "s = concat (map snd us) @ u ''>'' @ t @ r"
    by (auto simp: prefix_def)
  moreover from t have "t @ r \<noteq> []"
    by auto
  ultimately have "butlast s = concat (map snd us) @ u ''>'' @ butlast (t @ r)"
    by (simp add: butlast_append u_def)
  then show ?thesis
    by (simp add: u_def)
qed

text \<open>
  C2, as the specification states it, fails: the target group is \<open>.+\<close>, so a line that
  matches up to and including the arrow and ends there is not parsed with an empty
  target. The line below is consumed whole by the pattern without its target group, and
  the parser skips it.
\<close>

theorem empty_target_line_skipped:
  "rx_match arrow_pattern (u ''0x1[ts:1]|EVNT:a!@b_c:d=>'') =
     Some [(Some ''log_id'', u ''0x''), (Some ''log_id'', u ''1''), (None, u ''[ts:''),
       (Some ''timestamp'', u ''1''), (None, u '']|EVNT:''), (Some ''event_type'', u ''a''),
       (None, u ''!@''), (Some ''action'', u ''b''), (None, u ''_''),
       (Some ''actor_type'', u ''c''), (None, u '':''), (Some ''actor'', u ''d''),
       (None, u ''=''), (None, u ''>'')] \<and>
   parse_line fromtimestamp_utc ''a.vlog'' (u ''0x1[ts:1]|EVNT:a!@b_c:d=>'') = Inr None"
  by code_simp

text \<open>
  Such a line is parsed where an earlier \<open>>\<close> can stand for the arrow: the target then
  takes the rest, arrow included.
\<close>

lemma earlier_arrow_parsed:
  "parse_line fromtimestamp_utc ''a.vlog'' (u ''0x1[ts:1]|EVNT:a!@b_c:d>e=>'') =
     Inr (Some \<lparr>log_id = ''0x1'', timestamp = 1, event_type = ''a'', action = ''b'',
       actor_type = ''c'', actor = ''d'', target = ''e=>'', source_file = ''a.vlog'',
       datetime = 1\<rparr>)"
  by code_simp

text \<open>
  C2, amended: the parser never accepts an empty target. On every successful parse
  every captured field is non-empty, the target included (the timestamp is a number; its
  digits are covered by \<open>log_pattern_groups\<close>); and a line in which, once stripped, no
  \<open>>\<close> is followed by a character is skipped.
\<close>

theorem parsed_fields_nonempty:
  "(parse_line fromtimestamp fname line = Inr (Some e) \<longrightarrow>
      log_id e \<noteq> [] \<and> event_type e \<noteq> [] \<and> action e \<noteq> [] \<and> actor_type e \<noteq> [] \<and>
      actor e \<noteq> [] \<and> target e \<noteq> []) \<and>
   (of_char CHR ''>'' \<notin> set (butlast (strip line)) \<longrightarrow>
      parse_line fromtimestamp fname line = Inr None)"
proof -
  have a: "log_id e \<noteq> [] \<and> event_type e \<noteq> [] \<and> action e \<noteq> [] \<and> actor_type e \<noteq> [] \<and>
      actor e \<noteq> [] \<and> target e \<noteq> []"
    if p: "parse_line fromtimestamp fname line = Inr (Some e)"
  proof -
    from p obtain data where d: "rx_match log_pattern (strip line) = Some data"
      and e: "log_id e = utf8 (group ''log_id'' data)"
        "event_type e = utf8 (group ''event_type'' data)"
        "action e = utf8 (group ''action'' data)"
        "actor_type e = utf8 (group ''actor_type'' data)"
        "actor e = utf8 (group ''actor'' data)" "target e = utf8 (group ''target'' data)"
      by (auto simp: parse_line_def split: option.splits sum.splits)
    from log_pattern_groups [OF d] e show ?thesis
      by (simp add: utf8_Nil_iff)
  qed
  have b: "parse_line fromtimestamp fname line = Inr None"
    if n: "of_char CHR ''>'' \<notin> set (butlast (strip line))"
  proof -
    from n log_pattern_arrow have "rx_match log_pattern (strip line) = None"
      by (cases "rx_match log_pattern (strip line)") auto
    then show ?thesis
      by (simp add: parse_line_def)
  qed
  from a b show ?thesis
    by blast
qed

theorem parsed_fields_nonempty_witness:
  "parse_line fromtimestamp_utc ''a.vlog''
      (u ''0x1F[ts:17]|EVNT:XR!@DEL_usr:alice=>/tmp/a.exe'') =
     Inr (Some ((mk_event 17 ''DEL'' ''alice'' ''/tmp/a.exe'')
       \<lparr>log_id := ''0x1F'', event_type := ''XR''\<rparr>)) \<and>
   target ((mk_event 17 ''DEL'' ''alice'' ''/tmp/a.exe'')
       \<lparr>log_id := ''0x1F'', event_type := ''XR''\<rparr>) \<noteq> [] \<and>
   of_char CHR ''>'' \<notin> set (butlast (strip (u ''0x1[ts:1]|EVNT:a!@b_c:d=>  ''))) \<and>
   parse_line fromtimestamp_utc ''a.vlog'' (u ''0x1[ts:1]|EVNT:a!@b_c:d=>  '') = Inr None"
proof -
  have h: "parse_line fromtimestamp_utc ''a.vlog''
      (u ''0x1F[ts:17]|EVNT:XR!@DEL_usr:alice=>/tmp/a.exe'') =
     Inr (Some ((mk_event 17 ''DEL'' ''alice'' ''/tmp/a.exe'')
       \<lparr>log_id := ''0x1F'', event_type := ''XR''\<rparr>))"
    by code_simp
  have g: "of_char CHR ''>'' \<notin> set (butlast (strip (u ''0x1[ts:1]|EVNT:a!@b_c:d=>  '')))"
    by code_simp
  show ?thesis
    using h g
      parsed_fields_nonempty [of fromtimestamp_utc "''a.vlog''"
        "u ''0x1F[ts:17]|EVNT:XR!@DEL_usr:alice=>/tmp/a.exe''"
        "(mk_event 17 ''DEL'' ''alice'' ''/tmp/a.exe'')\<lparr>log_id := ''0x1F'', event_type := ''XR''\<rparr>"]
      parsed_fields_nonempty [of fromtimestamp_utc "''a.vlog''"
        "u ''0x1[ts:1]|EVNT:a!@b_c:d=>  ''"]
    by blast
qed

text \<open>The sample events are what the parser makes of their lines.\<close>

lemma mk_event_parsed:
  "parse_line fromtimestamp_utc ''a.vlog'' (u ''0x1[ts:30]|EVNT:EV!@DEL_usr:alice=>/tmp/s'') =
     Inr (Some (mk_event 30 ''DEL'' ''alice'' ''/tmp/s''))"
  by code_simp

text \<open>Unicode white space is stripped, and a timestamp may be written in any script.\<close>

lemma unicode_line_parsed:
  "parse_line fromtimestamp_utc ''a.vlog''
      (u ''0x1[ts:'' @ [1633, 1634] @ u '']|EVNT:a!@b_c:d=>x'' @ [160]) =
     Inr (Some \<lparr>log_id = ''0x1'', timestamp = 12, event_type = ''a'', action = ''b'',
       actor_type = ''c'', actor = ''d'', target = ''x'', source_file = ''a.vlog'',
       datetime = 12\<rparr>)"
  by code_simp

section \<open>The engine on an empty frame\<close>

text \<open>
  C1: a directory whose files hold no matching line gives \<open>pd.DataFrame([])\<close>, a frame
  without columns, and the engine raises KeyError on its first line instead of
  returning an empty list. (The loops themselves are fine with no rows: on a frame that
  has the columns and no rows the engine returns no anomalies.)
\<close>

theorem no_events_raises:
  "parse_logs_from_directory fromtimestamp_utc [(''a.vlog'', [u ''hello''])] = Inr (DataFrame []) \<and>
   custom_anomaly_detection argsort_stable (DataFrame []) = Inl (KeyError ''timestamp'') \<and>
   custom_anomaly_detection argsort_stable (Frame []) =
     Inr \<lparr>df_after = Frame [], anomalies = [], html_written = False\<rparr>"
  by code_simp

section \<open>Sorting\<close>

lemma argsort_ok_stable: "argsort_ok argsort_stable"
  by (simp add: argsort_ok_def argsort_stable_def)

lemma sorted_map_cong: 
  assumes "\<forall>x \<in> set xs. f x = g x" shows "sorted (map f xs) = sorted (map g xs)"
proof -
  have "map f xs = map g xs" using assms by simp
  then show ?thesis by (rule arg_cong)
qed

lemma argsort_set: "argsort_ok argsort \<Longrightarrow> set (argsort ks) = {0 ..< length ks}"
  unfolding argsort_ok_def by (metis mset_eq_setD set_upt)

lemma argsort_Nil: "argsort_ok argsort \<Longrightarrow> argsort [] = []"
  using argsort_set [of argsort "[]"] by simp

lemma sort_values_Nil: "argsort_ok argsort \<Longrightarrow> sort_values argsort [] = []"
  by (simp add: sort_values_def argsort_Nil)

lemma mset_sort_values: 
  assumes "argsort_ok argsort" shows "mset (sort_values argsort rows) = mset rows"
proof -
  have "mset (map ((!) rows) (argsort (map datetime rows))) = image_mset ((!) rows) (mset (argsort (map datetime rows)))"
    by simp
  also have "\<dots> = image_mset ((!) rows) (mset [0 ..< length rows])"
    using assms by (simp add: argsort_ok_def)
  also have "\<dots> = mset (map ((!) rows) [0 ..< length rows])" by simp
  also have "\<dots> = mset rows" by (simp add: map_nth)
  finally show ?thesis by (simp add: sort_values_def)
qed

lemma set_sort_values: "argsort_ok argsort \<Longrightarrow> set (sort_values argsort rows) = set rows"
  by (metis mset_sort_values set_mset_mset)

lemma sorted_sort_values:
  assumes "argsort_ok argsort" shows "sorted (map datetime (sort_values argsort rows))"
proof -
  let ?is = "argsort (map datetime rows)"
  have "\<forall>i \<in> set ?is. i < length rows"
    using argsort_set [OF assms, of "map datetime rows"] by simp
  then have "\<forall>i \<in> set ?is. (datetime \<circ> (!) rows) i = map datetime rows ! i"
    by simp
  from sorted_map_cong [OF this] have
    "sorted (map (datetime \<circ> (!) rows) ?is) = sorted (map ((!) (map datetime rows)) ?is)" .
  moreover have "sorted (map ((!) (map datetime rows)) ?is)"
    using assms by (simp add: argsort_ok_def)
  ultimately show ?thesis by (simp add: sort_values_def)
qed

lemma sort_key_cong_set: "(\<And>x. x \<in> set xs \<Longrightarrow> f x = g x) \<Longrightarrow> sort_key f xs = sort_key g xs"
proof (induction xs)
  case Nil
  then show ?case by simp
next
  case (Cons a xs)
  have "insort_key f a ys = insort_key g a ys" if "set ys \<subseteq> set xs" for ys
    using that Cons.prems by (induction ys) auto
  with Cons show ?case by simp
qed

lemma map_insort_key: "map f (insort_key (\<lambda>x. g (f x)) x xs) = insort_key g (f x) (map f xs)"
  by (induction xs) auto

lemma map_sort_key: "map f (sort_key (\<lambda>x. g (f x)) xs) = sort_key g (map f xs)"
  by (induction xs) (auto simp: map_insort_key)

lemma sort_values_stable: "sort_values argsort_stable rows = sort_key datetime rows"
proof -
  have "sort_key ((!) (map datetime rows)) [0 ..< length rows] = sort_key (\<lambda>i. datetime (rows ! i)) [0 ..< length rows]"
    by (rule sort_key_cong_set) simp
  then have "sort_values argsort_stable rows = sort_key datetime (map ((!) rows) [0 ..< length rows])"
    by (simp add: sort_values_def argsort_stable_def map_sort_key)
  then show ?thesis by (simp add: map_nth)
qed

lemma to_datetime_Inr: 
  "to_datetime rows = Inr rows1 \<longleftrightarrow> list_all (\<lambda>e. in_bounds (timestamp e)) rows \<and> rows1 = map (\<lambda>e. e\<lparr>datetime := timestamp e\<rparr>) rows"
  by (auto simp: to_datetime_def)

lemma to_datetime_clock: "to_datetime rows = Inr rows1 \<Longrightarrow> e \<in> set rows1 \<Longrightarrow> datetime e = timestamp e"
  by (auto simp: to_datetime_Inr)

section \<open>The frame after a call\<close>

text \<open>
  C3, as the specification states it, fails: the engine sorts the frame it is given in
  place. Two events that arrive with timestamps 2 and 1 stand in the other order after
  the call.
\<close>

theorem input_frame_reordered:
  "custom_anomaly_detection argsort_stable
     (Frame [mk_event 2 ''RD'' ''alice'' ''f'', mk_event 1 ''RD'' ''alice'' ''g'']) =
   Inr \<lparr>df_after = Frame [mk_event 1 ''RD'' ''alice'' ''g'', mk_event 2 ''RD'' ''alice'' ''f''],
        anomalies = [], html_written = False\<rparr>"
  by code_simp

text \<open>
  C3, amended: the call returns, and it leaves in the frame the events it was given, each
  with its \<open>datetime\<close> set from its timestamp and every other field as it was, reordered
  to ascending timestamps.
\<close>

theorem frame_after_call:
  assumes "argsort_ok argsort" and "list_all (\<lambda>e. in_bounds (timestamp e)) rows"
  shows "\<exists>out rows'. custom_anomaly_detection argsort (Frame rows) = Inr out \<and>
           df_after out = Frame rows' \<and>
           mset rows' = mset (map (\<lambda>e. e\<lparr>datetime := timestamp e\<rparr>) rows) \<and>
           sorted (map timestamp rows')"
proof -
  let ?rows1 = "map (\<lambda>e. e\<lparr>datetime := timestamp e\<rparr>) rows"
  let ?rows2 = "sort_values argsort ?rows1"
  have t: "to_datetime rows = Inr ?rows1" using assms(2) by (simp add: to_datetime_Inr)
  have "\<forall>e \<in> set ?rows2. datetime e = timestamp e"
    using set_sort_values [OF assms(1), of ?rows1] by auto
  from sorted_map_cong [OF this]
  have "sorted (map timestamp ?rows2)" using sorted_sort_values [OF assms(1), of ?rows1] by simp
  moreover have "mset ?rows2 = mset ?rows1" by (rule mset_sort_values [OF assms(1)])
  ultimately show ?thesis using t
    by (simp add: custom_anomaly_detection_def Let_def)
qed

theorem frame_after_call_witness:
  "argsort_ok argsort_stable \<and>
   list_all (\<lambda>e. in_bounds (timestamp e))
     [mk_event 2 ''RD'' ''alice'' ''f'', mk_event 1 ''RD'' ''alice'' ''g''] \<and>
   (\<exists>out rows'. custom_anomaly_detection argsort_stable
        (Frame [mk_event 2 ''RD'' ''alice'' ''f'', mk_event 1 ''RD'' ''alice'' ''g'']) = Inr out \<and>
      df_after out = Frame rows' \<and>
      mset rows' = mset (map (\<lambda>e. e\<lparr>datetime := timestamp e\<rparr>)
        [mk_event 2 ''RD'' ''alice'' ''f'', mk_event 1 ''RD'' ''alice'' ''g'']) \<and>
      sorted (map timestamp rows'))"
proof -
  have h: "list_all (\<lambda>e. in_bounds (timestamp e))
     [mk_event 2 ''RD'' ''alice'' ''f'', mk_event 1 ''RD'' ''alice'' ''g'']"
    by (simp add: in_bounds_def mk_event_def)
  show ?thesis
    using argsort_ok_stable h frame_after_call [OF argsort_ok_stable h] by blast
qed

section \<open>The view of one actor\<close>

text \<open>
  C4: the claim asks for a stable sort, and the code does not ask the library for one:
  it sorts the frame, and then each group, with the default kind of \<open>sort_values\<close>,
  quicksort, which may exchange rows of equal timestamp (on a frame of 20 events with one
  timestamp, ten of one actor and then ten of another, the rows of the first actor are
  not run over in the order they arrived). What holds whatever the index sort
  does with ties: for every actor the view is sorted ascending by timestamp and holds
  exactly the events of that actor. And the sort kind is all that is missing: with the
  stable index sort, events with equal timestamps keep their arrival order.
\<close>

theorem actor_view_sorted:
  assumes "argsort_ok argsort" and "to_datetime rows = Inr rows1"
  shows "sorted (map timestamp (actor_view argsort (sort_values argsort rows1) usr)) \<and>
         mset (actor_view argsort (sort_values argsort rows1) usr) = mset (get_group rows1 usr) \<and>
         actor_view argsort_stable (sort_values argsort_stable rows1) usr =
           sort_key timestamp (get_group rows1 usr)"
proof -
  let ?v = "actor_view argsort (sort_values argsort rows1) usr"
  have m: "mset ?v = mset (get_group rows1 usr)"
    by (simp add: actor_view_def get_group_def mset_sort_values [OF assms(1)] mset_filter)
  then have "set ?v \<subseteq> set rows1" by (metis (no_types, lifting) get_group_def filter_is_subset set_mset_mset)
  then have "\<forall>e \<in> set ?v. datetime e = timestamp e" using to_datetime_clock [OF assms(2)] by auto
  from sorted_map_cong [OF this]
  have s: "sorted (map timestamp ?v)"
    using sorted_sort_values [OF assms(1), of "get_group (sort_values argsort rows1) usr"]
    by (simp add: actor_view_def)
  have "actor_view argsort_stable (sort_values argsort_stable rows1) usr = sort_key datetime (sort_key datetime (get_group rows1 usr))"
    by (simp add: actor_view_def sort_values_stable get_group_def filter_sort)
  also have "\<dots> = sort_key datetime (get_group rows1 usr)"
    by (simp add: sort_key_id_if_sorted)
  also have "\<dots> = sort_key timestamp (get_group rows1 usr)"
    by (rule sort_key_cong_set) (use to_datetime_clock [OF assms(2)] in \<open>auto simp: get_group_def\<close>)
  finally show ?thesis using m s by simp
qed

theorem actor_view_sorted_witness:
  "argsort_ok argsort_stable \<and>
   to_datetime [mk_event 7 ''RD'' ''bob'' ''x'', mk_event 5 ''RD'' ''alice'' ''a'',
                mk_event 3 ''RD'' ''alice'' ''b'', mk_event 5 ''RD'' ''alice'' ''c''] =
     Inr [mk_event 7 ''RD'' ''bob'' ''x'', mk_event 5 ''RD'' ''alice'' ''a'',
          mk_event 3 ''RD'' ''alice'' ''b'', mk_event 5 ''RD'' ''alice'' ''c''] \<and>
   actor_view argsort_stable (sort_values argsort_stable
     [mk_event 7 ''RD'' ''bob'' ''x'', mk_event 5 ''RD'' ''alice'' ''a'',
      mk_event 3 ''RD'' ''alice'' ''b'', mk_event 5 ''RD'' ''alice'' ''c'']) ''alice'' =
     [mk_event 3 ''RD'' ''alice'' ''b'', mk_event 5 ''RD'' ''alice'' ''a'',
      mk_event 5 ''RD'' ''alice'' ''c''] \<and>
   sorted (map timestamp (actor_view argsort_stable (sort_values argsort_stable
     [mk_event 7 ''RD'' ''bob'' ''x'', mk_event 5 ''RD'' ''alice'' ''a'',
      mk_event 3 ''RD'' ''alice'' ''b'', mk_event 5 ''RD'' ''alice'' ''c'']) ''alice''))"
proof -
  have h: "to_datetime [mk_event 7 ''RD'' ''bob'' ''x'', mk_event 5 ''RD'' ''alice'' ''a'',
                mk_event 3 ''RD'' ''alice'' ''b'', mk_event 5 ''RD'' ''alice'' ''c''] =
     Inr [mk_event 7 ''RD'' ''bob'' ''x'', mk_event 5 ''RD'' ''alice'' ''a'',
          mk_event 3 ''RD'' ''alice'' ''b'', mk_event 5 ''RD'' ''alice'' ''c'']"
    by (simp add: to_datetime_def in_bounds_def mk_event_def)
  have v: "sort_key timestamp (get_group
     [mk_event 7 ''RD'' ''bob'' ''x'', mk_event 5 ''RD'' ''alice'' ''a'',
      mk_event 3 ''RD'' ''alice'' ''b'', mk_event 5 ''RD'' ''alice'' ''c''] ''alice'') =
     [mk_event 3 ''RD'' ''alice'' ''b'', mk_event 5 ''RD'' ''alice'' ''a'',
      mk_event 5 ''RD'' ''alice'' ''c'']"
    by code_simp
  note t = actor_view_sorted [OF argsort_ok_stable h, of "''alice''"]
  from t have s: "sorted (map timestamp (actor_view argsort_stable (sort_values argsort_stable
     [mk_event 7 ''RD'' ''bob'' ''x'', mk_event 5 ''RD'' ''alice'' ''a'',
      mk_event 3 ''RD'' ''alice'' ''b'', mk_event 5 ''RD'' ''alice'' ''c'']) ''alice''))"
    by blast
  from t have "actor_view argsort_stable (sort_values argsort_stable
     [mk_event 7 ''RD'' ''bob'' ''x'', mk_event 5 ''RD'' ''alice'' ''a'',
      mk_event 3 ''RD'' ''alice'' ''b'', mk_event 5 ''RD'' ''alice'' ''c'']) ''alice'' =
     sort_key timestamp (get_group
     [mk_event 7 ''RD'' ''bob'' ''x'', mk_event 5 ''RD'' ''alice'' ''a'',
      mk_event 3 ''RD'' ''alice'' ''b'', mk_event 5 ''RD'' ''alice'' ''c''] ''alice'')"
    by blast
  then have e: "actor_view argsort_stable (sort_values argsort_stable
     [mk_event 7 ''RD'' ''bob'' ''x'', mk_event 5 ''RD'' ''alice'' ''a'',
      mk_event 3 ''RD'' ''alice'' ''b'', mk_event 5 ''RD'' ''alice'' ''c'']) ''alice'' =
     [mk_event 3 ''RD'' ''alice'' ''b'', mk_event 5 ''RD'' ''alice'' ''a'',
      mk_event 5 ''RD'' ''alice'' ''c'']"
    by (simp only: v)
  from argsort_ok_stable h e s show ?thesis
    by blast
qed

section \<open>The rules\<close>

lemma concat_map_if: "concat (map (\<lambda>x. if P x then [f x] else []) xs) = map f (filter P xs)"
  by (induction xs) auto

lemma concat_map_if_list: "concat (map (\<lambda>x. if P x then g x else []) xs) = concat (map g (filter P xs))"
  by (induction xs) auto

lemma rule1_eq:
  "rule1 usr logs i =
     (if sublist ''SHD'' (action (logs ! i))
      then map (\<lambda>j. shadow_delete usr (logs ! i) (logs ! j))
             (filter (\<lambda>j. sublist ''DEL'' (action (logs ! j)) \<and>
                          datetime (logs ! j) - datetime (logs ! i) \<le> 600) (window logs i))
      else [])"
proof -
  have "(\<lambda>j. if str_in ''DEL'' (action (logs ! j))
             then (if datetime (logs ! j) - datetime (logs ! i) \<le> 600
                   then [shadow_delete usr (logs ! i) (logs ! j)] else [])
             else []) =
        (\<lambda>j. if sublist ''DEL'' (action (logs ! j)) \<and> datetime (logs ! j) - datetime (logs ! i) \<le> 600
             then [shadow_delete usr (logs ! i) (logs ! j)] else [])"
    by (auto simp: str_in_sublist)
  then show ?thesis
    by (simp add: rule1_def str_in_sublist concat_map_if)
qed

lemma rule2_eq:
  "rule2 usr logs i =
     (if sublist ''CRE'' (action (logs ! i))
      then map (\<lambda>j. create_delete usr (logs ! i) (logs ! j))
             (filter (\<lambda>j. sublist ''DEL'' (action (logs ! j)) \<and>
                          sublist (target (logs ! i)) (target (logs ! j))) (window logs i))
      else [])"
  by (simp add: rule2_def str_in_sublist concat_map_if)

lemma rule3_eq:
  "rule3 usr logs i =
     (if sublist ''RUN'' (action (logs ! i)) \<and>
         (\<exists>b \<in> set suspicious_binaries. sublist b (target (logs ! i)))
      then [suspicious_run usr (logs ! i)] else [])"
  by (simp add: rule3_def str_in_sublist any_in_iff)

lemma rule4_eq:
  "rule4 usr logs i =
     (if sublist ''DEL'' (action (logs ! i)) \<and>
         ((\<exists>x \<in> set suspicious_extensions. suffix x (target (logs ! i))) \<or>
          (\<exists>p \<in> set sensitive_paths. sublist p (target (logs ! i))))
      then [suspicious_delete usr (logs ! i)] else [])"
  by (simp add: rule4_def str_in_sublist any_in_iff list_ex_iff endswith_suffix)

lemma reason_simps:
  "reason (shadow_delete usr r l) = ''Shadow load followed by process delete''"
  "reason (create_delete usr r l) = ''Created then deleted same file''"
  "reason (suspicious_run usr r) = ''Suspicious binary executed''"
  "reason (suspicious_delete usr r) = ''Deleted binary/suspicious executable file''"
  by (simp_all add: shadow_delete_def create_delete_def suspicious_run_def suspicious_delete_def)

lemma user_simps:
  "user (shadow_delete usr r l) = usr" "user (create_delete usr r l) = usr"
  "user (suspicious_run usr r) = usr" "user (suspicious_delete usr r) = usr"
  by (simp_all add: shadow_delete_def create_delete_def suspicious_run_def suspicious_delete_def)

lemma filter_rule1_step:
  "filter (\<lambda>a. reason a = ''Shadow load followed by process delete'') (row_step usr logs i) = rule1 usr logs i"
  by (simp add: row_step_def rule1_eq rule2_eq rule3_eq rule4_eq reason_simps filter_map o_def)

lemma filter_rule4_step:
  "filter (\<lambda>a. reason a = ''Deleted binary/suspicious executable file'') (row_step usr logs i) = rule4 usr logs i"
  by (simp add: row_step_def rule1_eq rule2_eq rule3_eq rule4_eq reason_simps filter_map o_def)

lemma window_set: "set (window logs i) = {j. i < j \<and> j \<le> i + 5 \<and> j < length logs}"
  by (auto simp: window_def)

lemma window_take: "window (take (i + 6) logs) i = window logs i"
  by (simp add: window_def min.commute)

lemma nth_take_window: "j \<in> set (window logs i) \<Longrightarrow> take (i + 6) logs ! j = logs ! j"
  by (simp add: window_def)

subsection \<open>Rule 1 and its time bound\<close>

text \<open>
  C5: among the anomalies of one actor, those of Rule 1 are, in order, one for each pair
  of a row \<open>i\<close> whose action contains SHD and a row \<open>j\<close> of its window whose action
  contains DEL and whose timestamp is at most 600 seconds after that of \<open>i\<close>; a pair
  further apart gives none. (The engine runs the rules on rows whose \<open>datetime\<close> is
  their timestamp, see \<open>to_datetime_clock\<close>.)
\<close>

theorem rule1_time_bound:
  assumes "\<forall>e \<in> set logs. datetime e = timestamp e"
  shows "filter (\<lambda>a. reason a = ''Shadow load followed by process delete'') (actor_anomalies usr logs) =
    concat (map (\<lambda>i. map (\<lambda>j. shadow_delete usr (logs ! i) (logs ! j))
                   (filter (\<lambda>j. sublist ''DEL'' (action (logs ! j)) \<and>
                                timestamp (logs ! j) - timestamp (logs ! i) \<le> 600) (window logs i)))
              (filter (\<lambda>i. sublist ''SHD'' (action (logs ! i))) [0 ..< length logs]))"
proof -
  have clock: "datetime (logs ! k) = timestamp (logs ! k)" if "k < length logs" for k
    using assms that by simp
  have r: "rule1 usr logs i =
     (if sublist ''SHD'' (action (logs ! i))
      then map (\<lambda>j. shadow_delete usr (logs ! i) (logs ! j))
             (filter (\<lambda>j. sublist ''DEL'' (action (logs ! j)) \<and>
                          timestamp (logs ! j) - timestamp (logs ! i) \<le> 600) (window logs i))
      else [])" if "i < length logs" for i
  proof -
    have "filter (\<lambda>j. sublist ''DEL'' (action (logs ! j)) \<and>
                          datetime (logs ! j) - datetime (logs ! i) \<le> 600) (window logs i) =
          filter (\<lambda>j. sublist ''DEL'' (action (logs ! j)) \<and>
                          timestamp (logs ! j) - timestamp (logs ! i) \<le> 600) (window logs i)"
      by (rule filter_cong) (auto simp: window_set clock that)
    then show ?thesis by (simp add: rule1_eq)
  qed
  have "filter (\<lambda>a. reason a = ''Shadow load followed by process delete'') (actor_anomalies usr logs) =
        concat (map (rule1 usr logs) [0 ..< length logs])"
    by (simp add: actor_anomalies_def filter_concat o_def filter_rule1_step)
  also have "map (rule1 usr logs) [0 ..< length logs] =
     map (\<lambda>i. if sublist ''SHD'' (action (logs ! i))
      then map (\<lambda>j. shadow_delete usr (logs ! i) (logs ! j))
             (filter (\<lambda>j. sublist ''DEL'' (action (logs ! j)) \<and>
                          timestamp (logs ! j) - timestamp (logs ! i) \<le> 600) (window logs i))
      else []) [0 ..< length logs]"
    by (rule map_cong) (auto simp: r)
  finally show ?thesis by (simp add: concat_map_if_list)
qed

theorem rule1_time_bound_witness:
  "list_all (\<lambda>e. datetime e = timestamp e) (shadow_then_delete 600) \<and>
   list_all (\<lambda>e. datetime e = timestamp e) (shadow_then_delete 601) \<and>
   filter (\<lambda>a. reason a = ''Shadow load followed by process delete'')
     (actor_anomalies ''alice'' (shadow_then_delete 600)) =
     [shadow_delete ''alice'' (mk_event 1000 ''SHD'' ''alice'' ''libx'')
        (mk_event 1600 ''DEL'' ''alice'' ''proc'')] \<and>
   filter (\<lambda>a. reason a = ''Shadow load followed by process delete'')
     (actor_anomalies ''alice'' (shadow_then_delete 601)) = []"
proof -
  have l: "list_all (\<lambda>e. datetime e = timestamp e) (shadow_then_delete d)" for d
    by (simp add: shadow_then_delete_def mk_event_def)
  have h: "\<forall>e \<in> set (shadow_then_delete d). datetime e = timestamp e" for d
    using l [of d] by (simp add: list_all_iff)
  have a: "concat (map (\<lambda>i. map (\<lambda>j. shadow_delete ''alice'' (shadow_then_delete 600 ! i) (shadow_then_delete 600 ! j))
                   (filter (\<lambda>j. sublist ''DEL'' (action (shadow_then_delete 600 ! j)) \<and>
                                timestamp (shadow_then_delete 600 ! j) - timestamp (shadow_then_delete 600 ! i) \<le> 600)
                      (window (shadow_then_delete 600) i)))
              (filter (\<lambda>i. sublist ''SHD'' (action (shadow_then_delete 600 ! i)))
                 [0 ..< length (shadow_then_delete 600)])) =
     [shadow_delete ''alice'' (mk_event 1000 ''SHD'' ''alice'' ''libx'')
        (mk_event 1600 ''DEL'' ''alice'' ''proc'')]"
    by code_simp
  have b: "concat (map (\<lambda>i. map (\<lambda>j. shadow_delete ''alice'' (shadow_then_delete 601 ! i) (shadow_then_delete 601 ! j))
                   (filter (\<lambda>j. sublist ''DEL'' (action (shadow_then_delete 601 ! j)) \<and>
                                timestamp (shadow_then_delete 601 ! j) - timestamp (shadow_then_delete 601 ! i) \<le> 600)
                      (window (shadow_then_delete 601) i)))
              (filter (\<lambda>i. sublist ''SHD'' (action (shadow_then_delete 601 ! i)))
                 [0 ..< length (shadow_then_delete 601)])) = []"
    by code_simp
  show ?thesis
    using l [of 600] l [of 601]
      rule1_time_bound [OF h [of 600], of "''alice''"] rule1_time_bound [OF h [of 601], of "''alice''"]
    unfolding a b by blast
qed

subsection \<open>The look-ahead window\<close>

text \<open>
  C6: the window of row \<open>i\<close> is the indices \<open>i + 1\<close> to \<open>i + 5\<close> that exist. What Rules 1
  and 2 emit for \<open>i\<close> does not depend on the rows from index \<open>i + 6\<close> on, and each
  qualifying \<open>j\<close> of the window gives one anomaly of its own.
\<close>

theorem lookahead_window:
  assumes "i < length logs"
  shows "set (window logs i) = {j. i < j \<and> j \<le> i + 5 \<and> j < length logs} \<and>
    rule1 usr logs i = rule1 usr (take (i + 6) logs) i \<and>
    rule2 usr logs i = rule2 usr (take (i + 6) logs) i \<and>
    length (rule1 usr logs i) =
      (if sublist ''SHD'' (action (logs ! i))
       then card {j. i < j \<and> j \<le> i + 5 \<and> j < length logs \<and> sublist ''DEL'' (action (logs ! j)) \<and>
                     datetime (logs ! j) - datetime (logs ! i) \<le> 600}
       else 0) \<and>
    length (rule2 usr logs i) =
      (if sublist ''CRE'' (action (logs ! i))
       then card {j. i < j \<and> j \<le> i + 5 \<and> j < length logs \<and> sublist ''DEL'' (action (logs ! j)) \<and>
                     sublist (target (logs ! i)) (target (logs ! j))}
       else 0)"
proof -
  have i: "take (i + 6) logs ! i = logs ! i" by simp
  have "rule1 usr (take (i + 6) logs) i = rule1 usr logs i"
    unfolding rule1_def window_take i
    by (intro if_cong refl arg_cong [where f = concat] map_cong) (simp_all add: nth_take_window)
  moreover have "rule2 usr (take (i + 6) logs) i = rule2 usr logs i"
    unfolding rule2_def window_take i
    by (intro if_cong refl arg_cong [where f = concat] map_cong) (simp_all add: nth_take_window)
  moreover have len: "length (filter P (window logs i)) =
      card {j. i < j \<and> j \<le> i + 5 \<and> j < length logs \<and> P j}" for P
  proof -
    have "distinct (filter P (window logs i))" by (simp add: window_def)
    then have "length (filter P (window logs i)) = card (set (filter P (window logs i)))"
      by (rule distinct_card [symmetric])
    also have "set (filter P (window logs i)) = {j. i < j \<and> j \<le> i + 5 \<and> j < length logs \<and> P j}"
      by (auto simp: window_set)
    finally show ?thesis .
  qed
  ultimately show ?thesis
    by (simp add: window_set rule1_eq rule2_eq len)
qed

theorem lookahead_window_witness:
  "0 < length (late_delete 5) \<and>
   rule1 ''alice'' (late_delete 5) 0 = [] \<and> rule2 ''alice'' (late_delete 5) 0 = [] \<and>
   length (rule1 ''alice'' (late_delete 4) 0) = 1 \<and> length (rule2 ''alice'' (late_delete 4) 0) = 1"
proof -
  have h: "0 < length (late_delete k)" for k
    by (simp add: late_delete_def)
  have a: "rule1 ''alice'' (take (0 + 6) (late_delete 5)) 0 = []"
          "rule2 ''alice'' (take (0 + 6) (late_delete 5)) 0 = []"
    by code_simp+
  have b: "rule1 ''alice'' (late_delete 4) 0 =
             [shadow_delete ''alice'' (mk_event 0 ''SHD-CRE'' ''alice'' ''/x'') (mk_event 2 ''DEL'' ''alice'' ''/x'')]"
          "rule2 ''alice'' (late_delete 4) 0 =
             [create_delete ''alice'' (mk_event 0 ''SHD-CRE'' ''alice'' ''/x'') (mk_event 2 ''DEL'' ''alice'' ''/x'')]"
    by code_simp+
  show ?thesis
    using h [of 5] lookahead_window [OF h [of 5], of "''alice''"] a b
    by simp
qed

subsection \<open>Rule 4\<close>

text \<open>
  C9: at a row \<open>i\<close> the anomalies with the reason of Rule 4 are exactly one, built from
  row \<open>i\<close> alone and of severity High, if the action contains DEL and the target ends
  with one of the four extensions or contains one of the four paths, and none otherwise.
\<close>

theorem rule4_immediate:
  "filter (\<lambda>a. reason a = ''Deleted binary/suspicious executable file'') (row_step usr logs i) =
     (if sublist ''DEL'' (action (logs ! i)) \<and>
         (suffix ''.exe'' (target (logs ! i)) \<or> suffix ''.bin'' (target (logs ! i)) \<or>
          suffix ''.out'' (target (logs ! i)) \<or> suffix ''.so'' (target (logs ! i)) \<or>
          sublist ''/bin/'' (target (logs ! i)) \<or> sublist ''/tmp/'' (target (logs ! i)) \<or>
          sublist ''/sbin/'' (target (logs ! i)) \<or> sublist ''/usr/local/bin/'' (target (logs ! i)))
      then [suspicious_delete usr (logs ! i)] else []) \<and>
   severity (suspicious_delete usr (logs ! i)) = ''High'' \<and>
   reason (suspicious_delete usr (logs ! i)) = ''Deleted binary/suspicious executable file''"
  by (simp add: filter_rule4_step rule4_eq suspicious_extensions_def sensitive_paths_def
      suspicious_delete_def)

theorem rule4_immediate_witness:
  "filter (\<lambda>a. reason a = ''Deleted binary/suspicious executable file'')
     (row_step ''alice'' [mk_event 5 ''DEL'' ''alice'' ''tool.so''] 0) =
     [suspicious_delete ''alice'' (mk_event 5 ''DEL'' ''alice'' ''tool.so'')] \<and>
   filter (\<lambda>a. reason a = ''Deleted binary/suspicious executable file'')
     (row_step ''alice'' [mk_event 5 ''DEL'' ''alice'' ''/tmp/notes''] 0) =
     [suspicious_delete ''alice'' (mk_event 5 ''DEL'' ''alice'' ''/tmp/notes'')] \<and>
   filter (\<lambda>a. reason a = ''Deleted binary/suspicious executable file'')
     (row_step ''alice'' [mk_event 5 ''DEL'' ''alice'' ''notes.txt''] 0) = []"
proof -
  have s: "sublist ''DEL'' ''DEL''" "suffix ''.so'' ''tool.so''" "sublist ''/tmp/'' ''/tmp/notes''"
    "\<not> suffix ''.exe'' ''notes.txt''" "\<not> suffix ''.bin'' ''notes.txt''"
    "\<not> suffix ''.out'' ''notes.txt''" "\<not> suffix ''.so'' ''notes.txt''"
    "\<not> sublist ''/bin/'' ''notes.txt''" "\<not> sublist ''/tmp/'' ''notes.txt''"
    "\<not> sublist ''/sbin/'' ''notes.txt''" "\<not> sublist ''/usr/local/bin/'' ''notes.txt''"
    by code_simp+
  show ?thesis
    using rule4_immediate [of "''alice''" "[mk_event 5 ''DEL'' ''alice'' ''tool.so'']" 0]
      rule4_immediate [of "''alice''" "[mk_event 5 ''DEL'' ''alice'' ''/tmp/notes'']" 0]
      rule4_immediate [of "''alice''" "[mk_event 5 ''DEL'' ''alice'' ''notes.txt'']" 0] s
    by (simp add: mk_event_def)
qed

section \<open>The whole pass\<close>

lemma engine_Inr:
  "custom_anomaly_detection argsort (Frame rows) = Inr out \<longleftrightarrow>
     list_all (\<lambda>e. in_bounds (timestamp e)) rows \<and>
     out = \<lparr>df_after = Frame (sort_values argsort (map (\<lambda>e. e\<lparr>datetime := timestamp e\<rparr>) rows)),
            anomalies = concat (map (\<lambda>usr. actor_anomalies usr
                (actor_view argsort (sort_values argsort (map (\<lambda>e. e\<lparr>datetime := timestamp e\<rparr>) rows)) usr))
              (group_keys (sort_values argsort (map (\<lambda>e. e\<lparr>datetime := timestamp e\<rparr>) rows)))),
            html_written = (concat (map (\<lambda>usr. actor_anomalies usr
                (actor_view argsort (sort_values argsort (map (\<lambda>e. e\<lparr>datetime := timestamp e\<rparr>) rows)) usr))
              (group_keys (sort_values argsort (map (\<lambda>e. e\<lparr>datetime := timestamp e\<rparr>) rows)))) \<noteq> [])\<rparr>"
  by (auto simp: custom_anomaly_detection_def to_datetime_def Let_def)

lemma row_step_shape:
  assumes "a \<in> set (row_step usr logs i)" and "i < length logs"
  shows "a = suspicious_run usr (logs ! i) \<or> a = suspicious_delete usr (logs ! i) \<or>
         (\<exists>j < length logs. a = shadow_delete usr (logs ! i) (logs ! j) \<or>
                             a = create_delete usr (logs ! i) (logs ! j))"
  using assms
  by (auto simp: row_step_def rule1_eq rule2_eq rule3_eq rule4_eq window_set split: if_splits)

lemma actor_anomalies_shape:
  assumes "a \<in> set (actor_anomalies usr logs)"
  shows "\<exists>ei \<in> set logs. a = suspicious_run usr ei \<or> a = suspicious_delete usr ei \<or>
           (\<exists>ej \<in> set logs. a = shadow_delete usr ei ej \<or> a = create_delete usr ei ej)"
proof -
  from assms obtain i where i: "i < length logs" "a \<in> set (row_step usr logs i)"
    by (auto simp: actor_anomalies_def)
  from row_step_shape [OF i(2) i(1)] i(1) show ?thesis
    by (metis nth_mem)
qed

lemma actor_anomalies_user: "a \<in> set (actor_anomalies usr logs) \<Longrightarrow> user a = usr"
  using actor_anomalies_shape [of a usr logs] by (auto simp: user_simps)

lemma set_actor_view:
  "argsort_ok argsort \<Longrightarrow> set (actor_view argsort rows usr) = {e \<in> set rows. actor e = usr}"
  by (auto simp: actor_view_def get_group_def set_sort_values)

text \<open>The rows the rules run over carry their timestamp as \<open>datetime\<close>.\<close>

lemma actor_view_clock:
  assumes "argsort_ok argsort" and "to_datetime rows = Inr rows1"
  shows "\<forall>e \<in> set (actor_view argsort (sort_values argsort rows1) usr). datetime e = timestamp e"
  using to_datetime_clock [OF assms(2)]
  by (simp add: set_actor_view [OF assms(1)] set_sort_values [OF assms(1)])

lemma sorted_concat_blocks:
  assumes "sorted ks" and "\<And>k x. k \<in> set ks \<Longrightarrow> x \<in> set (f k) \<Longrightarrow> g x = k"
  shows "sorted (map g (concat (map f ks)))"
  using assms
proof (induction ks)
  case Nil
  then show ?case by simp
next
  case (Cons k ks)
  have "\<forall>x \<in> set (f k). g x = k" using Cons.prems(2) by simp
  then have "map g (f k) = replicate (length (f k)) k"
    by (simp add: map_replicate_const [symmetric] cong: map_cong)
  then have s1: "sorted (map g (f k))" by simp
  have s2: "sorted (map g (concat (map f ks)))" using Cons by simp
  have "g x \<le> g y" if x: "x \<in> set (f k)" and y: "y \<in> set (concat (map f ks))" for x y
  proof -
    from y obtain k' where k': "k' \<in> set ks" "y \<in> set (f k')" by auto
    have "g x = k" using Cons.prems(2) x by simp
    moreover have "g y = k'" using Cons.prems(2) k' by simp
    moreover have "k \<le> k'" using Cons.prems(1) k'(1) by simp
    ultimately show ?thesis by simp
  qed
  with s1 s2 show ?case by (auto simp: sorted_append)
qed

lemma group_keys_eq: "group_keys rows = sorted_list_of_set (actor ` set rows)"
  by (simp add: group_keys_def sorted_list_of_set_sort_remdups [symmetric])

lemma interleaved_result:
  "custom_anomaly_detection argsort_stable (Frame interleaved) = Inr interleaved_outcome"
  by code_simp

subsection \<open>Actor isolation\<close>

text \<open>
  C8: every anomaly the engine returns is built by one of the four rules from one or two
  events of the frame whose actor is the anomaly's \<open>user\<close>; no event of another actor
  enters it, however the timestamps of the actors interleave.
\<close>

theorem actor_isolation:
  assumes "argsort_ok argsort"
    and "custom_anomaly_detection argsort (Frame rows) = Inr out"
    and "a \<in> set (anomalies out)"
  shows "\<exists>ei \<in> set rows. actor ei = user a \<and>
           (a = suspicious_run (user a) (ei\<lparr>datetime := timestamp ei\<rparr>) \<or>
            a = suspicious_delete (user a) (ei\<lparr>datetime := timestamp ei\<rparr>) \<or>
            (\<exists>ej \<in> set rows. actor ej = user a \<and>
               (a = shadow_delete (user a) (ei\<lparr>datetime := timestamp ei\<rparr>) (ej\<lparr>datetime := timestamp ej\<rparr>) \<or>
                a = create_delete (user a) (ei\<lparr>datetime := timestamp ei\<rparr>) (ej\<lparr>datetime := timestamp ej\<rparr>))))"
proof -
  let ?rows1 = "map (\<lambda>e. e\<lparr>datetime := timestamp e\<rparr>) rows"
  let ?rows2 = "sort_values argsort ?rows1"
  from assms(2,3) obtain usr where a: "a \<in> set (actor_anomalies usr (actor_view argsort ?rows2 usr))"
    by (auto simp: engine_Inr)
  have u: "user a = usr" by (rule actor_anomalies_user [OF a])
  have v: "set (actor_view argsort ?rows2 usr) = {e \<in> set ?rows1. actor e = usr}"
    by (simp add: set_actor_view [OF assms(1)] set_sort_values [OF assms(1)])
  from actor_anomalies_shape [OF a] obtain ei where
    ei: "ei \<in> set (actor_view argsort ?rows2 usr)" and
    sh: "a = suspicious_run usr ei \<or> a = suspicious_delete usr ei \<or>
           (\<exists>ej \<in> set (actor_view argsort ?rows2 usr). a = shadow_delete usr ei ej \<or> a = create_delete usr ei ej)"
    by blast
  from ei v obtain ri where ri: "ri \<in> set rows" "ei = ri\<lparr>datetime := timestamp ri\<rparr>" "actor ri = usr"
    by auto
  from sh consider
      (run) "a = suspicious_run usr ei"
    | (del) "a = suspicious_delete usr ei"
    | (pair) ej where "ej \<in> set (actor_view argsort ?rows2 usr)"
        "a = shadow_delete usr ei ej \<or> a = create_delete usr ei ej"
    by blast
  then show ?thesis
  proof cases
    case run
    with ri u show ?thesis by (intro bexI [where x = ri]) simp_all
  next
    case del
    with ri u show ?thesis by (intro bexI [where x = ri]) simp_all
  next
    case pair
    from pair(1) v obtain rj where
      rj: "rj \<in> set rows" "ej = rj\<lparr>datetime := timestamp rj\<rparr>" "actor rj = usr"
      by auto
    have "\<exists>ej \<in> set rows. actor ej = user a \<and>
               (a = shadow_delete (user a) ei (ej\<lparr>datetime := timestamp ej\<rparr>) \<or>
                a = create_delete (user a) ei (ej\<lparr>datetime := timestamp ej\<rparr>))"
      using rj u pair(2) by (intro bexI [where x = rj]) simp_all
    with ri u show ?thesis by (intro bexI [where x = ri]) auto
  qed
qed

theorem actor_isolation_witness:
  "argsort_ok argsort_stable \<and>
   custom_anomaly_detection argsort_stable (Frame interleaved) = Inr interleaved_outcome \<and>
   shadow_delete ''alice'' (mk_event 10 ''SHD'' ''alice'' ''libx'')
       (mk_event 30 ''DEL'' ''alice'' ''/tmp/s'') \<in> set (anomalies interleaved_outcome) \<and>
   (\<exists>ei \<in> set interleaved. \<exists>ej \<in> set interleaved.
      actor ei = ''alice'' \<and> actor ej = ''alice'' \<and>
      shadow_delete ''alice'' (mk_event 10 ''SHD'' ''alice'' ''libx'')
          (mk_event 30 ''DEL'' ''alice'' ''/tmp/s'') =
        shadow_delete ''alice'' (ei\<lparr>datetime := timestamp ei\<rparr>) (ej\<lparr>datetime := timestamp ej\<rparr>))"
proof -
  let ?a = "shadow_delete ''alice'' (mk_event 10 ''SHD'' ''alice'' ''libx'')
       (mk_event 30 ''DEL'' ''alice'' ''/tmp/s'')"
  have m: "?a \<in> set (anomalies interleaved_outcome)"
    by (simp add: interleaved_outcome_def)
  have r: "reason ?a \<noteq> reason (suspicious_run u e)" "reason ?a \<noteq> reason (suspicious_delete u e)"
    "reason ?a \<noteq> reason (create_delete u e e')" for u e e'
    by (simp_all add: reason_simps)
  then have d: "?a \<noteq> suspicious_run u e" "?a \<noteq> suspicious_delete u e" "?a \<noteq> create_delete u e e'"
    for u e e'
    by (metis r(1), metis r(2), metis r(3))
  have u: "user ?a = ''alice''"
    by (simp add: user_simps)
  from actor_isolation [OF argsort_ok_stable interleaved_result m]
  have "\<exists>ei \<in> set interleaved. \<exists>ej \<in> set interleaved.
      actor ei = ''alice'' \<and> actor ej = ''alice'' \<and>
      ?a = shadow_delete ''alice'' (ei\<lparr>datetime := timestamp ei\<rparr>) (ej\<lparr>datetime := timestamp ej\<rparr>)"
    unfolding u using d by blast
  with argsort_ok_stable interleaved_result m show ?thesis
    by blast
qed

subsection \<open>Order of the output\<close>

text \<open>
  C10: the actors are run over in ascending order of their identifier, an order fixed by
  the set of actors in the frame; so the anomalies come in blocks, one per actor, with
  \<open>user\<close> ascending, each block being the anomalies of that actor's view in loop order.
\<close>

theorem anomalies_in_actor_order:
  assumes "argsort_ok argsort"
    and "custom_anomaly_detection argsort (Frame rows) = Inr out"
  shows "sorted (map user (anomalies out)) \<and>
         (\<exists>rows2. df_after out = Frame rows2 \<and>
            anomalies out =
              concat (map (\<lambda>usr.
                  concat (map (\<lambda>i.
                      rule1 usr (actor_view argsort rows2 usr) i @
                      rule2 usr (actor_view argsort rows2 usr) i @
                      rule3 usr (actor_view argsort rows2 usr) i @
                      rule4 usr (actor_view argsort rows2 usr) i)
                    [0 ..< length (actor_view argsort rows2 usr)]))
                (sorted_list_of_set (actor ` set rows))))"
proof -
  let ?rows1 = "map (\<lambda>e. e\<lparr>datetime := timestamp e\<rparr>) rows"
  let ?rows2 = "sort_values argsort ?rows1"
  have k: "group_keys ?rows2 = sorted_list_of_set (actor ` set rows)"
    by (simp add: group_keys_eq set_sort_values [OF assms(1)] image_image)
  have o: "df_after out = Frame ?rows2"
    "anomalies out =
       concat (map (\<lambda>usr. actor_anomalies usr (actor_view argsort ?rows2 usr)) (group_keys ?rows2))"
    using assms(2) by (auto simp: engine_Inr)
  have "sorted (map user
      (concat (map (\<lambda>usr. actor_anomalies usr (actor_view argsort ?rows2 usr)) (group_keys ?rows2))))"
    by (rule sorted_concat_blocks) (auto simp: group_keys_def actor_anomalies_user)
  then have s: "sorted (map user (anomalies out))"
    by (simp only: o(2))
  have e: "actor_anomalies usr logs =
      concat (map (\<lambda>i. rule1 usr logs i @ rule2 usr logs i @ rule3 usr logs i @ rule4 usr logs i)
        [0 ..< length logs])" for usr logs
    by (simp add: actor_anomalies_def row_step_def [abs_def])
  from o(2) have "anomalies out =
      concat (map (\<lambda>usr.
          concat (map (\<lambda>i.
              rule1 usr (actor_view argsort ?rows2 usr) i @
              rule2 usr (actor_view argsort ?rows2 usr) i @
              rule3 usr (actor_view argsort ?rows2 usr) i @
              rule4 usr (actor_view argsort ?rows2 usr) i)
            [0 ..< length (actor_view argsort ?rows2 usr)]))
        (sorted_list_of_set (actor ` set rows)))"
    by (simp only: e k)
  with s o(1) show ?thesis
    by blast
qed

theorem anomalies_in_actor_order_witness:
  "argsort_ok argsort_stable \<and>
   custom_anomaly_detection argsort_stable (Frame interleaved) = Inr interleaved_outcome \<and>
   sorted (map user (anomalies interleaved_outcome)) \<and>
   map user (anomalies interleaved_outcome) = [''alice'', ''alice'', ''bob'']"
proof (intro conjI)
  show "argsort_ok argsort_stable"
    by (rule argsort_ok_stable)
  show "custom_anomaly_detection argsort_stable (Frame interleaved) = Inr interleaved_outcome"
    by (rule interleaved_result)
  show "sorted (map user (anomalies interleaved_outcome))"
    using anomalies_in_actor_order [OF argsort_ok_stable interleaved_result] by blast
  show "map user (anomalies interleaved_outcome) = [''alice'', ''alice'', ''bob'']"
    by (simp add: interleaved_outcome_def user_simps)
qed

end
